theory Spec2Isabelle
  imports Complex_Main "HOL-Library.Word"
begin

unbundle bit_operations_syntax

section \<open>Numbers\<close>

text \<open>
  The functions of the math namespace take and return JavaScript numbers, the values of
  binary64. The embedding covers the finite ones: a number is a \<open>real\<close> and comparison
  is the order of the reals. The infinities and NaN are outside the embedding, and so is
  every operation whose result would exceed the largest finite number.

  The bitwise operators and the idiom \<open>~~x\<close> first convert their operands with the
  language's ToInt32: the number is truncated towards zero and reduced modulo \<open>2 ^ 32\<close>.
  The 32-bit values are \<open>32 word\<close>; a result read back as a number is the signed value
  of the word.
\<close>

type_synonym number = real

type_synonym int32 = "32 word"

definition trunc :: "number \<Rightarrow> int" where
  "trunc x = (if 0 \<le> x then \<lfloor>x\<rfloor> else \<lceil>x\<rceil>)"

definition ToInt32 :: "number \<Rightarrow> int32" where
  "ToInt32 x = word_of_int (trunc x)"

definition ofInt32 :: "int32 \<Rightarrow> number" where
  "ofInt32 w = of_int (sint w)"

text \<open>
  An arithmetic operation of binary64 returns the exact result rounded to the nearest
  number, a tie going to the neighbour whose last significand bit is zero. A number has
  53 significand bits; between \<open>2^e\<close> and \<open>2^(e+1)\<close> the numbers are the multiples of
  \<open>2^(e-52)\<close>, and below \<open>2^(-1022)\<close> (the subnormal range) the multiples of \<open>2^(-1074)\<close>.
  \<open>fl\<close> is this rounding, on the magnitude, with the sign put back.
\<close>

definition round_even :: "real \<Rightarrow> int" where
  "round_even y =
     (let f = \<lfloor>y\<rfloor> in
      if y - of_int f < 1 / 2 then f
      else if 1 / 2 < y - of_int f then f + 1
      else if even f then f else f + 1)"

definition binade :: "real \<Rightarrow> int" where
  "binade y = max \<lfloor>log 2 y\<rfloor> (- 1022)"

definition fl :: "real \<Rightarrow> number" where
  "fl x =
     (if x = 0 then 0
      else sgn x *
        (of_int (round_even (\<bar>x\<bar> / 2 powi (binade \<bar>x\<bar> - 52))) * 2 powi (binade \<bar>x\<bar> - 52)))"

text \<open>
  \<open>Math.pow(10, y)\<close>. In \<open>round\<close> the power is the exact one, \<open>powr\<close> (the base is
  positive): the exponents there are \<open>0\<close> and \<open>2\<close>, with the results \<open>1\<close> and \<open>100\<close>.
\<close>

definition pow10 :: "number \<Rightarrow> number" where
  "pow10 y = 10 powr y"

text \<open>
  The language leaves the accuracy of \<open>Math.pow\<close> to the implementation and fixes only
  special cases, among them the result \<open>1\<close> for the exponent \<open>0\<close>. In \<open>toBeCloseTo\<close> the
  implementation's function \<open>y \<mapsto> Math.pow(10, y)\<close> is therefore a parameter;
  \<open>pow10_nearest\<close> is the implementation that rounds the exact power to the nearest number.
\<close>

definition Math_pow10 :: "(number \<Rightarrow> number) \<Rightarrow> number \<Rightarrow> number" where
  "Math_pow10 approx y = (if y = 0 then 1 else approx y)"

definition pow10_nearest :: "number \<Rightarrow> number" where
  "pow10_nearest y = fl (10 powr y)"

section \<open>The math utilities\<close>

text \<open>\<open>(val & (val - 1)) === 0\<close>\<close>

definition isPowerOfTwo :: "number \<Rightarrow> bool" where
  "isPowerOfTwo val \<longleftrightarrow> (ToInt32 val AND ToInt32 (val - 1)) = 0"

definition isPowerOfFour :: "number \<Rightarrow> bool" where
  "isPowerOfFour val =
     (if val = 0 \<or> val = 2 \<or> val = 3 then False
      else if val = 1 then True
      else if (ToInt32 val AND ToInt32 (val - 1)) = 0
        then (if (ToInt32 val AND ToInt32 0xaaaaaaaa) = 0 then True else False)
      else False)"

text \<open>
  \<open>val--\<close> and \<open>val++\<close> are operations on numbers; each \<open>val |= val >> n\<close> converts
  \<open>val\<close> to 32 bits, shifts with sign propagation and stores the 32-bit result.
\<close>

definition nextPowerOfTwo :: "number \<Rightarrow> number" where
  "nextPowerOfTwo val =
     (let v0 = ToInt32 (val - 1);
          v1 = v0 OR signed_drop_bit 1 v0;
          v2 = v1 OR signed_drop_bit 2 v1;
          v3 = v2 OR signed_drop_bit 4 v2;
          v4 = v3 OR signed_drop_bit 8 v3;
          v5 = v4 OR signed_drop_bit 16 v4
      in ofInt32 v5 + 1)"

text \<open>\<open>val < low ? low : val > high ? high : +val\<close>; unary plus is the identity on numbers.\<close>

definition clamp :: "number \<Rightarrow> number \<Rightarrow> number \<Rightarrow> number" where
  "clamp val low high = (if val < low then low else if val > high then high else val)"

text \<open>
  \<open>random\<close> reads the ambient source \<open>Math.random()\<close> once; the value read is the
  first argument of the model. The subtraction, the multiplication and the addition are
  those of binary64. The parameters \<open>min\<close> and \<open>max\<close> are primed, the plain names being
  the lattice operations of HOL.
\<close>

definition random_js :: "number \<Rightarrow> number \<Rightarrow> number \<Rightarrow> number" where
  "random_js r min' max' = fl (ofInt32 (ToInt32 (fl (r * fl (max' - min')))) + min')"

text \<open>
  An omitted argument (\<open>None\<close>) takes the default of the parameter list. \<open>round\<close> is
  modelled in exact arithmetic.
\<close>

definition round_js :: "number \<Rightarrow> number option \<Rightarrow> number" where
  "round_js num dec =
     (let powres = pow10 (case dec of None \<Rightarrow> 0 | Some d \<Rightarrow> d)
      in ofInt32 (ToInt32 (0.5 + num * powres)) / powres)"

text \<open>
  \<open>Math.abs(expected - actual) < Math.pow(10, -precision) / 2\<close>: the subtraction and the
  division are those of binary64, the absolute value and the negation are exact.
\<close>

definition toBeCloseTo ::
  "(number \<Rightarrow> number) \<Rightarrow> number \<Rightarrow> number \<Rightarrow> number option \<Rightarrow> bool" where
  "toBeCloseTo approx expected actual precision \<longleftrightarrow>
     \<bar>fl (expected - actual)\<bar> <
       fl (Math_pow10 approx (- (case precision of None \<Rightarrow> 2 | Some p \<Rightarrow> p)) / 2)"

section \<open>The input module\<close>

text \<open>The module-level state of \<open>input.js\<close>: one binding, declared with \<open>let\<close>.\<close>

record input =
  preventDefault :: bool

definition input_load :: input where
  "input_load = \<lparr>preventDefault = True\<rparr>"

section \<open>Vocabulary of the specification\<close>

text \<open>
  The number of set bits in the binary representation of a natural number: the
  specification's "exactly one set bit" is \<open>popcount n = 1\<close>.
\<close>

fun popcount :: "nat \<Rightarrow> nat" where
  "popcount n = (if n = 0 then 0 else n mod 2 + popcount (n div 2))"

declare popcount.simps [simp del]

section \<open>Rounding to binary64\<close>

lemma fl_0: "fl 0 = 0"
  by (simp add: fl_def)

text \<open>Rounding to nearest is symmetric about zero.\<close>

lemma fl_minus: "fl (- x) = - fl x"
  by (simp add: fl_def sgn_minus)

lemma round_even_near:
  assumes "of_int n - 1 / 2 < y" "y < of_int n + 1 / 2"
  shows "round_even y = n"
proof (cases "of_int n \<le> y")
  case True
  with assms(2) have "\<lfloor>y\<rfloor> = n" by (simp add: floor_eq_iff)
  with assms(2) show ?thesis by (simp add: round_even_def)
next
  case False
  with assms(1) have "\<lfloor>y\<rfloor> = n - 1" by (simp add: floor_eq_iff)
  with assms(1) show ?thesis by (simp add: round_even_def)
qed

lemma round_even_tie:
  assumes "y = of_int f + 1 / 2"
  shows "round_even y = (if even f then f else f + 1)"
proof -
  have "\<lfloor>y\<rfloor> = f" unfolding assms by (simp add: floor_eq_iff)
  then show ?thesis by (simp add: round_even_def assms)
qed

lemma two_powr_of_int: "(2 :: real) powr of_int k = 2 powi k"
  by (simp add: powr_real_of_int')

lemma binade_normal:
  assumes "2 powi e \<le> y" "y < 2 powi (e + 1)" "- 1022 \<le> e"
  shows "binade y = e"
proof -
  have pos: "0 < y" using assms(1) by (rule less_le_trans [rotated]) simp
  have "2 powr of_int e \<le> y \<and> y < 2 powr of_int (e + 1)"
    unfolding two_powr_of_int using assms(1,2) by simp
  then have "\<lfloor>log 2 y\<rfloor> = e"
    using floor_log_eq_powr_iff [of y 2 e] pos by simp
  with assms(3) show ?thesis by (simp add: binade_def)
qed

lemma binade_subnormal:
  assumes "0 < y" "y < 2 powi (- 1022)"
  shows "binade y = - 1022"
proof -
  have "y < 2 powr of_int (- 1022)" unfolding two_powr_of_int using assms(2) .
  then have "log 2 y < of_int (- 1022)"
    using log_less_iff [of 2 y "of_int (- 1022)"] assms(1) by simp
  then have "\<lfloor>log 2 y\<rfloor> < - 1022" by (simp add: floor_less_iff)
  then show ?thesis by (simp add: binade_def)
qed

text \<open>
  The value of \<open>fl\<close> at a positive \<open>x\<close>, from the power of two below \<open>x\<close> and the
  multiple of the spacing nearest to \<open>x\<close>.
\<close>

lemma fl_pos:
  assumes "0 < x" "binade x = e" "round_even (x / 2 powi (e - 52)) = n"
  shows "fl x = of_int n * 2 powi (e - 52)"
  using assms by (simp add: fl_def)

section \<open>Conversions\<close>

lemma trunc_of_int: "trunc (of_int n) = n"
  by (simp add: trunc_def)

text \<open>Inside the signed 32-bit range the conversion to 32 bits and back loses nothing.\<close>

lemma sint_word_of_int_32:
  "- (2 ^ 31) \<le> n \<Longrightarrow> n < 2 ^ 31 \<Longrightarrow> sint (word_of_int n :: int32) = n"
  by (simp add: sint_sbintrunc' signed_take_bit_int_eq_self)

lemma ToInt32_of_int: "ToInt32 (of_int v) = word_of_int v"
  by (simp add: ToInt32_def trunc_of_int)

lemma ToInt32_of_int_pred: "ToInt32 (of_int v - 1) = word_of_int v - 1"
proof -
  have "of_int v - 1 = (of_int (v - 1) :: number)" by simp
  then have "ToInt32 (of_int v - 1) = word_of_int (v - 1)"
    by (simp only: ToInt32_of_int)
  then show ?thesis by simp
qed

lemma unat_word_of_int_32:
  "0 \<le> v \<Longrightarrow> v < 2 ^ 32 \<Longrightarrow> unat (word_of_int v :: int32) = nat v"
  by (simp add: unsigned_of_int take_bit_int_eq_self)

lemma word_of_int_0_iff_32:
  "0 \<le> v \<Longrightarrow> v < 2 ^ 32 \<Longrightarrow> (word_of_int v :: int32) = 0 \<longleftrightarrow> v = 0"
  using unat_word_of_int_32 [of v] by (auto simp flip: unat_eq_0)

section \<open>clamp\<close>

text \<open>
  C5. For all numbers \<open>val\<close>, \<open>low\<close> and \<open>high\<close>, \<open>clamp\<close> returns \<open>low\<close> when
  \<open>val < low\<close>, returns \<open>high\<close> when \<open>val \<ge> low\<close> and \<open>val > high\<close>, and returns \<open>val\<close>
  in every other case; so \<open>clamp(5, 0, 10) = 5\<close>, \<open>clamp(-1, 0, 10) = 0\<close> and
  \<open>clamp(11, 0, 10) = 10\<close>.
\<close>

theorem clamp_cases:
  "(val < low \<longrightarrow> clamp val low high = low) \<and>
   (val \<ge> low \<and> val > high \<longrightarrow> clamp val low high = high) \<and>
   (\<not> val < low \<and> \<not> (val \<ge> low \<and> val > high) \<longrightarrow> clamp val low high = val) \<and>
   clamp 5 0 10 = 5 \<and> clamp (- 1) 0 10 = 0 \<and> clamp 11 0 10 = 10"
  by (simp add: clamp_def)

theorem clamp_cases_witness:
  "((- 1 :: number) < 0 \<and> clamp (- 1) 0 10 = 0) \<and>
   ((11 :: number) \<ge> 0 \<and> (11 :: number) > 10 \<and> clamp 11 0 10 = 10) \<and>
   (\<not> (5 :: number) < 0 \<and> \<not> ((5 :: number) \<ge> 0 \<and> (5 :: number) > 10) \<and> clamp 5 0 10 = 5)"
  using clamp_cases [of "- 1" 0 10] clamp_cases [of 11 0 10] clamp_cases [of 5 0 10]
  by simp

section \<open>toBeCloseTo\<close>

subsection \<open>The numbers of the examples\<close>

text \<open>
  The literals \<open>10.004\<close>, \<open>10.1\<close> and \<open>0.01\<close> denote the numbers nearest to them. The
  differences \<open>10 - 10.004\<close> and \<open>10 - 10.1\<close> of these numbers are numbers themselves, and
  so is half of \<open>0.01\<close>.
\<close>

lemma fl_10_004: "fl 10.004 = 5631751334026805 / 2 ^ 49"
proof -
  have b: "binade 10.004 = 3" by (rule binade_normal) simp_all
  have r: "round_even (10.004 / 2 powi (3 - 52)) = 5631751334026805"
    by (rule round_even_near) simp_all
  from fl_pos [OF _ b r] show ?thesis by simp
qed

lemma fl_10_1: "fl 10.1 = 5685794529555251 / 2 ^ 49"
proof -
  have b: "binade 10.1 = 3" by (rule binade_normal) simp_all
  have r: "round_even (10.1 / 2 powi (3 - 52)) = 5685794529555251"
    by (rule round_even_near) simp_all
  from fl_pos [OF _ b r] show ?thesis by simp
qed

lemma fl_hundredth: "fl (1 / 100) = 5764607523034235 / 2 ^ 59"
proof -
  have b: "binade (1 / 100) = - 7" by (rule binade_normal) simp_all
  have r: "round_even (1 / 100 / 2 powi (- 7 - 52)) = 5764607523034235"
    by (rule round_even_near) simp_all
  from fl_pos [OF _ b r] show ?thesis by simp
qed

lemma fl_half_hundredth: "fl (5764607523034235 / 2 ^ 59 / 2) = 5764607523034235 / 2 ^ 60"
proof -
  have b: "binade (5764607523034235 / 2 ^ 59 / 2) = - 8" by (rule binade_normal) simp_all
  have r: "round_even (5764607523034235 / 2 ^ 59 / 2 / 2 powi (- 8 - 52)) = 5764607523034235"
    by (rule round_even_near) simp_all
  from fl_pos [OF _ b r] show ?thesis by simp
qed

lemma fl_diff_10_004: "fl (10 - 5631751334026805 / 2 ^ 49) = - (2251799813685 / 2 ^ 49)"
proof -
  have b: "binade (2251799813685 / 2 ^ 49) = - 8" by (rule binade_normal) simp_all
  have r: "round_even (2251799813685 / 2 ^ 49 / 2 powi (- 8 - 52)) = 4611686018426880"
    by (rule round_even_near) simp_all
  from fl_pos [OF _ b r] have "fl (2251799813685 / 2 ^ 49) = 2251799813685 / 2 ^ 49"
    by simp
  moreover have "10 - 5631751334026805 / 2 ^ 49 = - (2251799813685 / 2 ^ 49 :: real)"
    by simp
  ultimately show ?thesis by (simp only: fl_minus)
qed

lemma fl_diff_10_1: "fl (10 - 5685794529555251 / 2 ^ 49) = - (56294995342131 / 2 ^ 49)"
proof -
  have b: "binade (56294995342131 / 2 ^ 49) = - 4" by (rule binade_normal) simp_all
  have r: "round_even (56294995342131 / 2 ^ 49 / 2 powi (- 4 - 52)) = 7205759403792768"
    by (rule round_even_near) simp_all
  from fl_pos [OF _ b r] have "fl (56294995342131 / 2 ^ 49) = 56294995342131 / 2 ^ 49"
    by simp
  moreover have "10 - 5685794529555251 / 2 ^ 49 = - (56294995342131 / 2 ^ 49 :: real)"
    by simp
  ultimately show ?thesis by (simp only: fl_minus)
qed

lemma fl_half: "fl (1 / 2) = 1 / 2"
proof -
  have b: "binade (1 / 2) = - 1" by (rule binade_normal) simp_all
  have r: "round_even (1 / 2 / 2 powi (- 1 - 52)) = 4503599627370496"
    by (rule round_even_near) simp_all
  from fl_pos [OF _ b r] show ?thesis by simp
qed

subsection \<open>A difference that rounds up to the threshold\<close>

text \<open>
  \<open>1/2 - 2^(-54)\<close> is the number below \<open>1/2\<close>, and \<open>2^(-55) + 2^(-60)\<close> is a number.
  Their exact sum is below \<open>1/2\<close> and nearer to \<open>1/2\<close> than to the number below it.
\<close>

lemma fl_below_half: "fl (1 / 2 - 1 / 2 ^ 54) = 1 / 2 - 1 / 2 ^ 54"
proof -
  have b: "binade (1 / 2 - 1 / 2 ^ 54) = - 2" by (rule binade_normal) simp_all
  have r: "round_even ((1 / 2 - 1 / 2 ^ 54) / 2 powi (- 2 - 52)) = 9007199254740991"
    by (rule round_even_near) simp_all
  from fl_pos [OF _ b r] show ?thesis by simp
qed

lemma fl_tiny: "fl (1 / 2 ^ 55 + 1 / 2 ^ 60) = 1 / 2 ^ 55 + 1 / 2 ^ 60"
proof -
  have b: "binade (1 / 2 ^ 55 + 1 / 2 ^ 60) = - 55" by (rule binade_normal) simp_all
  have r: "round_even ((1 / 2 ^ 55 + 1 / 2 ^ 60) / 2 powi (- 55 - 52)) = 4644337115725824"
    by (rule round_even_near) simp_all
  from fl_pos [OF _ b r] show ?thesis by simp
qed

lemma fl_sum_rounds_up: "fl (1 / 2 - 1 / 2 ^ 54 - - (1 / 2 ^ 55 + 1 / 2 ^ 60)) = 1 / 2"
proof -
  let ?x = "1 / 2 - 1 / 2 ^ 54 - - (1 / 2 ^ 55 + 1 / 2 ^ 60) :: real"
  have b: "binade ?x = - 2" by (rule binade_normal) simp_all
  have r: "round_even (?x / 2 powi (- 2 - 52)) = 9007199254740992"
    by (rule round_even_near) simp_all
  from fl_pos [OF _ b r] show ?thesis by simp
qed

subsection \<open>A power that underflows\<close>

lemma pow10_nearest_underflow: "pow10_nearest (- 324) = 0"
proof -
  let ?x = "1 / 10 ^ 324 :: real"
  have x: "10 powr (- 324) = ?x" by (simp add: powr_neg_numeral)
  have b: "binade ?x = - 1022" by (rule binade_subnormal) simp_all
  have r: "round_even (?x / 2 powi (- 1022 - 52)) = 0"
    by (rule round_even_near) simp_all
  from fl_pos [OF _ b r] have "fl ?x = 0" by simp
  then show ?thesis unfolding pow10_nearest_def x .
qed

lemma pow10_nearest_hundredth: "pow10_nearest (- 2) = fl (1 / 100)"
  by (simp add: pow10_nearest_def powr_neg_numeral)

subsection \<open>The claims\<close>

text \<open>
  C7, as the code has it. For all numbers \<open>expected\<close> and \<open>actual\<close> and every integer
  \<open>precision\<close>, \<open>toBeCloseTo\<close> is true exactly when \<open>|d| < t / 2\<close>, where \<open>d\<close> is the
  difference \<open>expected - actual\<close> rounded to binary64 and \<open>t\<close> is the number that
  \<open>Math.pow(10, -precision)\<close> returns (the division rounded as well); a call without
  \<open>precision\<close> is the call with precision 2; and where \<open>Math.pow(10, -2)\<close> returns the
  number \<open>0.01\<close>, \<open>toBeCloseTo(10, 10.004, 2)\<close> is true and \<open>toBeCloseTo(10, 10.1, 2)\<close> is
  false.
\<close>

theorem toBeCloseTo_rounded:
  "(toBeCloseTo approx expected actual (Some (of_int p)) \<longleftrightarrow>
      \<bar>fl (expected - actual)\<bar> < fl (Math_pow10 approx (of_int (- p)) / 2)) \<and>
   toBeCloseTo approx expected actual None = toBeCloseTo approx expected actual (Some 2) \<and>
   (approx (- 2) = fl (1 / 100) \<longrightarrow>
      toBeCloseTo approx 10 (fl 10.004) (Some 2) \<and> \<not> toBeCloseTo approx 10 (fl 10.1) (Some 2))"
proof -
  have "toBeCloseTo approx expected actual (Some (of_int p)) \<longleftrightarrow>
      \<bar>fl (expected - actual)\<bar> < fl (Math_pow10 approx (of_int (- p)) / 2)"
    by (simp add: toBeCloseTo_def)
  moreover have "toBeCloseTo approx expected actual None =
      toBeCloseTo approx expected actual (Some 2)"
    by (simp add: toBeCloseTo_def)
  moreover have "toBeCloseTo approx 10 (fl 10.004) (Some 2) \<and>
      \<not> toBeCloseTo approx 10 (fl 10.1) (Some 2)" if "approx (- 2) = fl (1 / 100)"
  proof -
    have t: "fl (Math_pow10 approx (- 2) / 2) = 5764607523034235 / 2 ^ 60"
      unfolding Math_pow10_def that fl_hundredth using fl_half_hundredth by simp
    have "toBeCloseTo approx 10 (fl 10.004) (Some 2)"
      unfolding toBeCloseTo_def option.case t fl_10_004 fl_diff_10_004 by simp
    moreover have "\<not> toBeCloseTo approx 10 (fl 10.1) (Some 2)"
      unfolding toBeCloseTo_def option.case t fl_10_1 fl_diff_10_1 by simp
    ultimately show ?thesis ..
  qed
  ultimately show ?thesis by blast
qed

theorem toBeCloseTo_rounded_witness:
  "pow10_nearest (- 2) = fl (1 / 100) \<and>
   toBeCloseTo pow10_nearest 10 (fl 10.004) (Some 2) \<and>
   \<not> toBeCloseTo pow10_nearest 10 (fl 10.1) (Some 2)"
  using toBeCloseTo_rounded [of pow10_nearest] pow10_nearest_hundredth by blast

text \<open>
  The claim as written compares the exact difference with the exact power, and fails
  where the code's values are rounded. With precision \<open>0\<close> the threshold is \<open>1/2\<close> in
  every implementation; the numbers \<open>1/2 - 2^(-54)\<close> and \<open>-(2^(-55) + 2^(-60))\<close> differ
  by less than \<open>1/2\<close>, their computed difference is \<open>1/2\<close>, and \<open>toBeCloseTo\<close> is false.
  With precision \<open>324\<close> the exact threshold is positive and the nearest number to the
  power is \<open>0\<close>, so \<open>toBeCloseTo(1, 1, 324)\<close> is false.
\<close>

theorem toBeCloseTo_not_exact:
  "\<not> toBeCloseTo pow10_nearest (1 / 2 - 1 / 2 ^ 54) (- (1 / 2 ^ 55 + 1 / 2 ^ 60)) (Some 0) \<and>
   \<bar>(1 / 2 - 1 / 2 ^ 54) - (- (1 / 2 ^ 55 + 1 / 2 ^ 60))\<bar> < (10 :: real) powi (- 0) / 2 \<and>
   \<not> toBeCloseTo pow10_nearest 1 1 (Some 324) \<and>
   \<bar>1 - 1\<bar> < (10 :: real) powi (- 324) / 2"
proof -
  have "\<not> toBeCloseTo pow10_nearest (1 / 2 - 1 / 2 ^ 54) (- (1 / 2 ^ 55 + 1 / 2 ^ 60)) (Some 0)"
    unfolding toBeCloseTo_def option.case fl_sum_rounds_up
    by (simp add: Math_pow10_def fl_half)
  moreover have "\<bar>(1 / 2 - 1 / 2 ^ 54) - (- (1 / 2 ^ 55 + 1 / 2 ^ 60))\<bar> < (10 :: real) powi (- 0) / 2"
    by simp
  moreover have "\<not> toBeCloseTo pow10_nearest 1 1 (Some 324)"
    by (simp add: toBeCloseTo_def Math_pow10_def pow10_nearest_underflow fl_0)
  moreover have "\<bar>1 - 1\<bar> < (10 :: real) powi (- 324) / 2"
    by simp
  ultimately show ?thesis by blast
qed

text \<open>
  C10. \<open>toBeCloseTo\<close> is symmetric in its first two arguments, whatever the precision
  (given or omitted) and whatever \<open>Math.pow\<close> returns.
\<close>

theorem toBeCloseTo_symmetric:
  "toBeCloseTo approx a b precision = toBeCloseTo approx b a precision"
proof -
  have "fl (a - b) = - fl (b - a)" using fl_minus [of "b - a"] by simp
  then show ?thesis by (simp add: toBeCloseTo_def)
qed

section \<open>The flag of the input module\<close>

text \<open>
  C8. After the module has loaded, the flag \<open>preventDefault\<close> is true; the binding is
  mutable, so it holds whatever boolean is assigned to it afterwards.
\<close>

theorem preventDefault_initial:
  "preventDefault input_load = True \<and> preventDefault (input_load\<lparr>preventDefault := b\<rparr>) = b"
  by (simp add: input_load_def)

section \<open>Powers of two and of four\<close>

subsection \<open>One set bit\<close>

text \<open>
  On natural numbers, having one set bit, being a power of two and passing the test
  \<open>x AND (x - 1) = 0\<close> (for \<open>x > 0\<close>) are the same; each is proved by induction on the
  binary representation.
\<close>

lemma popcount_0_iff: "popcount n = 0 \<longleftrightarrow> n = 0"
proof (induction n rule: popcount.induct)
  case (1 n)
  show ?case
  proof (cases "n = 0")
    case True
    then show ?thesis by (simp add: popcount.simps)
  next
    case False
    with 1 have "popcount (n div 2) = 0 \<longleftrightarrow> n div 2 = 0" by simp
    with False show ?thesis
      by (subst popcount.simps) (auto simp: mod_2_eq_odd elim: oddE)
  qed
qed

lemma pow2_half: "(\<exists>k. 2 * y = (2::nat) ^ k) \<longleftrightarrow> (\<exists>k. y = 2 ^ k)"
proof
  assume "\<exists>k. 2 * y = 2 ^ k"
  then obtain k where k: "2 * y = 2 ^ k" ..
  then have "k \<noteq> 0" by (cases k) auto
  then obtain j where "k = Suc j" by (cases k) auto
  with k have "y = 2 ^ j" by simp
  then show "\<exists>k. y = 2 ^ k" ..
next
  assume "\<exists>k. y = 2 ^ k"
  then obtain k where "y = 2 ^ k" ..
  then have "2 * y = 2 ^ Suc k" by simp
  then show "\<exists>k. 2 * y = 2 ^ k" ..
qed

lemma pow2_odd: "(\<exists>k. Suc (2 * y) = (2::nat) ^ k) \<longleftrightarrow> y = 0"
proof
  assume "\<exists>k. Suc (2 * y) = 2 ^ k"
  then obtain k where k: "Suc (2 * y) = 2 ^ k" ..
  have "k = 0"
  proof (rule ccontr)
    assume "k \<noteq> 0"
    then have "even ((2::nat) ^ k)" by simp
    with k show False by (metis even_Suc dvd_triv_left)
  qed
  with k show "y = 0" by simp
next
  assume "y = 0"
  then have "Suc (2 * y) = 2 ^ 0" by simp
  then show "\<exists>k. Suc (2 * y) = 2 ^ k" ..
qed

lemma popcount_1_iff: "popcount n = 1 \<longleftrightarrow> (\<exists>k. n = 2 ^ k)"
proof (induction n rule: popcount.induct)
  case (1 n)
  show ?case
  proof (cases "n = 0")
    case True
    then show ?thesis by (simp add: popcount.simps)
  next
    case False
    with 1 have IH: "popcount (n div 2) = 1 \<longleftrightarrow> (\<exists>k. n div 2 = 2 ^ k)" by simp
    show ?thesis
    proof (cases "even n")
      case True
      then obtain y where y: "n = 2 * y" by (elim evenE)
      with False have "popcount n = popcount y" by (subst popcount.simps) simp
      with IH y pow2_half [of y] show ?thesis by simp
    next
      case odd: False
      then obtain y where y: "n = Suc (2 * y)" by (elim oddE) simp
      then have "popcount n = Suc (popcount y)" by (subst popcount.simps) simp
      with y pow2_odd [of y] popcount_0_iff [of y] show ?thesis by simp
    qed
  qed
qed

lemma and_pred_nat: "0 < x \<Longrightarrow> (x AND (x - 1) = 0) \<longleftrightarrow> (\<exists>k. x = (2::nat) ^ k)"
proof (induction x rule: less_induct)
  case (less x)
  show ?case
  proof (cases "even x")
    case True
    then obtain y where y: "x = 2 * y" by (elim evenE)
    with less.prems have y0: "0 < y" by simp
    then have "(2 * y - 1) div 2 = y - 1" by (cases y) simp_all
    then have "x AND (x - 1) = 2 * (y AND (y - 1))"
      using y by (subst and_rec) simp
    moreover have "(y AND (y - 1) = 0) \<longleftrightarrow> (\<exists>k. y = 2 ^ k)"
      using less.IH [of y] y y0 by simp
    ultimately show ?thesis using y pow2_half [of y] by simp
  next
    case False
    then obtain y where y: "x = Suc (2 * y)" by (elim oddE) simp
    then have "x AND (x - 1) = 2 * y"
      by (subst and_rec) simp
    with y pow2_odd [of y] show ?thesis by simp
  qed
qed


lemma and_pred_word:
  "(w AND (w - 1) = 0) \<longleftrightarrow> (w = 0 \<or> (\<exists>k. unat w = 2 ^ k))" for w :: int32
proof (cases "w = 0")
  case True
  then show ?thesis by simp
next
  case False
  then have pos: "0 < unat w" by (simp add: unat_gt_0)
  have "(w AND (w - 1) = 0) \<longleftrightarrow> (unat (w AND (w - 1)) = 0)"
    by (simp add: unat_eq_0)
  also have "unat (w AND (w - 1)) = unat w AND (unat w - 1)"
    using False by (simp add: unsigned_and_eq unat_minus_one)
  also have "(unat w AND (unat w - 1) = 0) \<longleftrightarrow> (\<exists>k. unat w = 2 ^ k)"
    using pos by (rule and_pred_nat)
  finally show ?thesis using False by simp
qed

text \<open>
  The test of the code on 32-bit values: it passes for zero and for the values with one
  set bit.
\<close>

lemma isPowerOfTwo_of_int:
  "isPowerOfTwo (of_int v) \<longleftrightarrow>
     ((word_of_int v :: int32) = 0 \<or> (\<exists>k. unat (word_of_int v :: int32) = 2 ^ k))"
  unfolding isPowerOfTwo_def ToInt32_of_int ToInt32_of_int_pred by (rule and_pred_word)

lemma isPowerOfTwo_pow2: "isPowerOfTwo (2 ^ k)"
proof -
  have "(2 ^ k :: number) = of_int (2 ^ k)" by simp
  moreover have "isPowerOfTwo (of_int (2 ^ k))"
  proof (cases "k < 32")
    case True
    then have "(2 ^ k :: int) < 2 ^ 32" by (intro power_strict_increasing) simp_all
    then have "unat (word_of_int (2 ^ k) :: int32) = nat (2 ^ k)"
      by (intro unat_word_of_int_32) simp_all
    then have "unat (word_of_int (2 ^ k) :: int32) = 2 ^ k"
      by (simp add: nat_power_eq)
    then show ?thesis unfolding isPowerOfTwo_of_int by blast
  next
    case False
    then have "(word_of_int (2 ^ k) :: int32) = 0"
      by (simp add: word_of_int_eq_0_iff)
    then show ?thesis unfolding isPowerOfTwo_of_int by blast
  qed
  ultimately show ?thesis by simp
qed

subsection \<open>isPowerOfTwo\<close>

text \<open>
  C2, as the code has it. \<open>isPowerOfTwo\<close> is true of every power of two \<open>2^k\<close>; and for
  every integer \<open>v\<close> with \<open>0 \<le> v < 2^32\<close> it is true exactly when the binary
  representation of \<open>v\<close> has exactly one set bit or \<open>v\<close> is \<open>0\<close>.
\<close>

theorem isPowerOfTwo_spec:
  "isPowerOfTwo (2 ^ k) \<and>
   (0 \<le> v \<and> v < 2 ^ 32 \<longrightarrow> (isPowerOfTwo (of_int v) \<longleftrightarrow> popcount (nat v) = 1 \<or> v = 0))"
proof -
  have "isPowerOfTwo (of_int v) \<longleftrightarrow> popcount (nat v) = 1 \<or> v = 0"
    if "0 \<le> v" "v < 2 ^ 32"
    unfolding isPowerOfTwo_of_int unat_word_of_int_32 [OF that] word_of_int_0_iff_32 [OF that]
      popcount_1_iff
    by blast
  with isPowerOfTwo_pow2 show ?thesis by blast
qed

theorem isPowerOfTwo_spec_witness:
  "isPowerOfTwo (2 ^ 3) \<and> (0 :: int) \<le> 8 \<and> (8 :: int) < 2 ^ 32 \<and>
   isPowerOfTwo (of_int 8) \<and> popcount (nat 8) = 1 \<and>
   (0 :: int) \<le> 6 \<and> (6 :: int) < 2 ^ 32 \<and> \<not> isPowerOfTwo (of_int 6) \<and> popcount (nat 6) = 2"
proof -
  have p: "popcount (nat 8) = 1" "popcount (nat 6) = 2"
    by (simp_all add: popcount.simps)
  from isPowerOfTwo_spec [of 3 8] isPowerOfTwo_spec [of 3 6] p show ?thesis by simp
qed

text \<open>
  Without the bound the second half of the claim fails: the operands of \<open>&\<close> are reduced
  to 32 bits, so \<open>isPowerOfTwo(12884901888)\<close> is true although \<open>12884901888 = 3 * 2^32\<close>
  has two set bits.
\<close>

theorem isPowerOfTwo_beyond_32_bits:
  "isPowerOfTwo (of_int 12884901888) \<and>
   \<not> (popcount (nat 12884901888) = 1 \<or> (12884901888 :: int) = 0)"
  by (simp add: isPowerOfTwo_def ToInt32_def trunc_def popcount.simps)

subsection \<open>isPowerOfFour\<close>

text \<open>
  The mask \<open>0xaaaaaaaa\<close> has exactly the odd bit positions set, so a 32-bit value with one
  set bit passes the second test of \<open>isPowerOfFour\<close> when that bit is at an even position.
  The three special cases \<open>1\<close>, \<open>2\<close> and \<open>3\<close> of the code return what the two tests
  would; only \<open>0\<close> is decided by its special case.
\<close>

lemma ToInt32_mask: "ToInt32 0xaaaaaaaa = 0xaaaaaaaa"
  by (simp add: ToInt32_def trunc_def)

lemma bit_odd_mask: "bit (0xaaaaaaaa :: int32) j \<longleftrightarrow> j < 32 \<and> odd j"
proof (cases "j < 32")
  case False
  then show ?thesis using bit_imp_le_length [of "0xaaaaaaaa :: int32" j] by auto
next
  case True
  then have "j \<in> {..<32}" by simp
  then have "bit (0xaaaaaaaa :: int32) j \<longleftrightarrow> odd j"
    unfolding lessThan_nat_numeral lessThan_Suc pred_numeral_simps arith_simps
    by (elim insertE) (simp_all add: bit_numeral_word_iff)
  with True show ?thesis by simp
qed

lemma isPowerOfFour_of_int:
  "isPowerOfFour (of_int v) \<longleftrightarrow>
     v \<noteq> 0 \<and> (word_of_int v AND (word_of_int v - 1)) = (0 :: int32) \<and>
     (word_of_int v AND 0xaaaaaaaa) = (0 :: int32)"
proof -
  consider "v = 0" | "v = 1" | "v = 2" | "v = 3" | "v \<noteq> 0" "v \<noteq> 1" "v \<noteq> 2" "v \<noteq> 3"
    by blast
  then show ?thesis
  proof cases
    case 5
    then show ?thesis
      unfolding isPowerOfFour_def ToInt32_of_int ToInt32_of_int_pred ToInt32_mask
      by simp
  qed (simp_all add: isPowerOfFour_def)
qed


lemma word_pow2_of_unat:
  "unat w = 2 ^ k \<Longrightarrow> k < 32 \<and> w = 2 ^ k" for w :: int32
proof
  assume u: "unat w = 2 ^ k"
  have "unat w < 2 ^ 32" using unsigned_less [of w, where 'a = nat] by simp
  with u have "(2 :: nat) ^ k < 2 ^ 32" by simp
  then show "k < 32" by (simp only: power_strict_increasing_iff)
  have "w = of_nat (unat w)" by simp
  also have "\<dots> = 2 ^ k" unfolding u by simp
  finally show "w = 2 ^ k" .
qed

lemma pow2_and_odd_mask:
  "k < 32 \<Longrightarrow> ((2 ^ k :: int32) AND 0xaaaaaaaa) = 0 \<longleftrightarrow> even k"
proof -
  assume "k < 32"
  have "((2 ^ k :: int32) AND 0xaaaaaaaa) = (0xaaaaaaaa AND 2 ^ k)" by (rule and.commute)
  also have "\<dots> = 0 \<longleftrightarrow> \<not> bit (0xaaaaaaaa :: int32) k"
    by (rule and_exp_eq_0_iff_not_bit)
  also have "\<dots> \<longleftrightarrow> even k" unfolding bit_odd_mask using \<open>k < 32\<close> by simp
  finally show ?thesis .
qed

lemma pow4_iff_even_pow2: "(\<exists>k. n = (2 :: nat) ^ k \<and> even k) \<longleftrightarrow> (\<exists>j. n = 4 ^ j)"
proof
  assume "\<exists>k. n = 2 ^ k \<and> even k"
  then obtain k where "n = 2 ^ k" "even k" by blast
  then obtain j where "k = 2 * j" "n = 2 ^ k" by (elim evenE) simp
  then have "n = 4 ^ j" by (simp add: power_mult)
  then show "\<exists>j. n = 4 ^ j" ..
next
  assume "\<exists>j. n = 4 ^ j"
  then obtain j where "n = 4 ^ j" ..
  then have "n = 2 ^ (2 * j) \<and> even (2 * j)" by (simp add: power_mult)
  then show "\<exists>k. n = 2 ^ k \<and> even k" ..
qed

lemma isPowerOfFour_unsigned:
  assumes "0 \<le> v" "v < 2 ^ 32"
  shows "isPowerOfFour (of_int v) \<longleftrightarrow> (\<exists>j. v = 4 ^ j)"
proof -
  let ?w = "word_of_int v :: int32"
  have u: "unat ?w = nat v" using assms by (rule unat_word_of_int_32)
  have z: "?w = 0 \<longleftrightarrow> v = 0" using assms by (rule word_of_int_0_iff_32)
  have "isPowerOfFour (of_int v) \<longleftrightarrow> (\<exists>k. nat v = 2 ^ k \<and> even k)"
  proof
    assume "isPowerOfFour (of_int v)"
    then have v0: "v \<noteq> 0" and t: "?w AND (?w - 1) = 0" and m: "?w AND 0xaaaaaaaa = 0"
      unfolding isPowerOfFour_of_int by simp_all
    from t v0 z obtain k where k: "unat ?w = 2 ^ k" unfolding and_pred_word by blast
    then have "k < 32" "?w = 2 ^ k" using word_pow2_of_unat [of ?w k] by simp_all
    with m have "even k" using pow2_and_odd_mask [of k] by simp
    with k u show "\<exists>k. nat v = 2 ^ k \<and> even k" by auto
  next
    assume "\<exists>k. nat v = 2 ^ k \<and> even k"
    then obtain k where k: "nat v = 2 ^ k" "even k" by blast
    with u have uk: "unat ?w = 2 ^ k" by simp
    then have "k < 32" "?w = 2 ^ k" using word_pow2_of_unat [of ?w k] by simp_all
    with k have m: "?w AND 0xaaaaaaaa = 0" using pow2_and_odd_mask [of k] by simp
    from uk have t: "?w AND (?w - 1) = 0" unfolding and_pred_word by blast
    from k have "v \<noteq> 0" by auto
    with t m show "isPowerOfFour (of_int v)" unfolding isPowerOfFour_of_int by simp
  qed
  also have "\<dots> \<longleftrightarrow> (\<exists>j. nat v = 4 ^ j)" by (rule pow4_iff_even_pow2)
  also have "\<dots> \<longleftrightarrow> (\<exists>j. v = 4 ^ j)"
  proof -
    have "nat v = 4 ^ j \<longleftrightarrow> v = 4 ^ j" for j
      using assms(1) by (simp add: nat_eq_iff)
    then show ?thesis by simp
  qed
  finally show ?thesis .
qed

lemma isPowerOfFour_negative:
  assumes "- (2 ^ 31) \<le> v" "v < 0"
  shows "\<not> isPowerOfFour (of_int v)"
proof
  let ?w = "word_of_int v :: int32"
  assume "isPowerOfFour (of_int v)"
  then have m: "?w AND 0xaaaaaaaa = 0" unfolding isPowerOfFour_of_int by simp
  have "v < 2 ^ 31" using assms(2) by (rule less_trans) simp
  with assms(1) have "sint ?w = v" by (rule sint_word_of_int_32)
  with assms(2) have "bit ?w 31" using bit_last_iff [of ?w] by simp
  then have "bit (?w AND 0xaaaaaaaa) 31" by (simp add: bit_and_iff bit_odd_mask)
  with m show False by simp
qed

text \<open>
  C3, as the code has it. For every integer \<open>v\<close> with \<open>-2^31 \<le> v < 2^32\<close>,
  \<open>isPowerOfFour(v)\<close> is true if and only if \<open>v\<close> is a power of four; it is true of
  \<open>1, 4, 16, 64, 256\<close> and false of \<open>0, 2, 3, 8, 32\<close>.
\<close>

theorem isPowerOfFour_spec:
  "(- (2 ^ 31) \<le> v \<and> v < 2 ^ 32 \<longrightarrow> (isPowerOfFour (of_int v) \<longleftrightarrow> (\<exists>k. v = 4 ^ k))) \<and>
   isPowerOfFour 1 \<and> isPowerOfFour 4 \<and> isPowerOfFour 16 \<and> isPowerOfFour 64 \<and>
   isPowerOfFour 256 \<and>
   \<not> isPowerOfFour 0 \<and> \<not> isPowerOfFour 2 \<and> \<not> isPowerOfFour 3 \<and> \<not> isPowerOfFour 8 \<and>
   \<not> isPowerOfFour 32"
proof -
  have "isPowerOfFour (of_int v) \<longleftrightarrow> (\<exists>k. v = 4 ^ k)" if "- (2 ^ 31) \<le> v" "v < 2 ^ 32"
  proof (cases "0 \<le> v")
    case True
    then show ?thesis using that(2) by (rule isPowerOfFour_unsigned)
  next
    case False
    then have neg: "v < 0" by simp
    have "v \<noteq> 4 ^ k" for k
    proof
      assume "v = 4 ^ k"
      then have "0 < v" by simp
      with neg show False by simp
    qed
    with isPowerOfFour_negative [OF that(1) neg] show ?thesis by simp
  qed
  moreover have "isPowerOfFour 1 \<and> isPowerOfFour 4 \<and> isPowerOfFour 16 \<and> isPowerOfFour 64 \<and>
    isPowerOfFour 256"
    by (simp add: isPowerOfFour_def ToInt32_def trunc_def)
  moreover have "\<not> isPowerOfFour 0 \<and> \<not> isPowerOfFour 2 \<and> \<not> isPowerOfFour 3 \<and>
    \<not> isPowerOfFour 8 \<and> \<not> isPowerOfFour 32"
    by (simp add: isPowerOfFour_def ToInt32_def trunc_def)
  ultimately show ?thesis by blast
qed

theorem isPowerOfFour_spec_witness:
  "- (2 ^ 31) \<le> (1024 :: int) \<and> (1024 :: int) < 2 ^ 32 \<and> isPowerOfFour (of_int 1024) \<and>
   (1024 :: int) = 4 ^ 5 \<and>
   - (2 ^ 31) \<le> (- 4 :: int) \<and> (- 4 :: int) < 2 ^ 32 \<and> \<not> isPowerOfFour (of_int (- 4))"
proof -
  have "\<exists>k. (1024 :: int) = 4 ^ k"
  proof
    show "(1024 :: int) = 4 ^ 5" by simp
  qed
  moreover have "\<not> (\<exists>k. (- 4 :: int) = 4 ^ k)"
  proof
    assume "\<exists>k. (- 4 :: int) = 4 ^ k"
    then obtain k where "(- 4 :: int) = 4 ^ k" ..
    moreover have "(0 :: int) < 4 ^ k" by simp
    ultimately show False by simp
  qed
  ultimately show ?thesis
    using isPowerOfFour_spec [of 1024] isPowerOfFour_spec [of "- 4"] by simp
qed

text \<open>
  Without the bound the claim fails: \<open>8589934592 = 2^33\<close> lies strictly between \<open>4^16\<close>
  and \<open>4^17\<close>, its low 32 bits are all zero, and \<open>isPowerOfFour\<close> accepts it.
\<close>

theorem isPowerOfFour_beyond_32_bits:
  "isPowerOfFour (of_int 8589934592) \<and> (8589934592 :: int) = 2 * 4 ^ 16 \<and>
   (4 :: int) ^ 16 < 8589934592 \<and> (8589934592 :: int) < 4 ^ 17"
  by (simp add: isPowerOfFour_def ToInt32_def trunc_def)

subsection \<open>isPowerOfFour and isPowerOfTwo\<close>

text \<open>
  C9. Every number that \<open>isPowerOfFour\<close> accepts, \<open>isPowerOfTwo\<close> accepts as well; the
  integers of the claim are among the numbers.
\<close>

theorem isPowerOfFour_imp_isPowerOfTwo:
  "isPowerOfFour val \<Longrightarrow> isPowerOfTwo val"
  by (auto simp: isPowerOfFour_def isPowerOfTwo_def ToInt32_def trunc_def split: if_splits)

theorem isPowerOfFour_imp_isPowerOfTwo_witness:
  "isPowerOfFour 4 \<and> isPowerOfTwo 4"
proof -
  have h: "isPowerOfFour 4"
    by (simp add: isPowerOfFour_def ToInt32_def trunc_def)
  from h isPowerOfFour_imp_isPowerOfTwo [OF h] show ?thesis by simp
qed

section \<open>nextPowerOfTwo\<close>

subsection \<open>Smearing the highest set bit\<close>

text \<open>
  On a 32-bit value whose sign bit is clear the sign-propagating shift is the logical
  shift. After the step with shift \<open>m\<close> a bit of the value is set when one of the next
  \<open>2 * m\<close> bits of the start value is; after the five steps, when any higher bit is.
\<close>

lemma signed_drop_bit_clear:
  "\<not> bit w 31 \<Longrightarrow> signed_drop_bit n w = drop_bit n w" for w :: int32
proof (rule bit_word_eqI)
  fix i
  assume c: "\<not> bit w 31" and i: "i < LENGTH(32)"
  have "\<not> bit w (n + i)" if "32 - n \<le> i"
  proof (cases "n + i = 31")
    case True
    with c show ?thesis by simp
  next
    case False
    with that i have "32 \<le> n + i" by simp
    then show ?thesis using bit_imp_le_length [of w "n + i"] by auto
  qed
  with c i show "bit (signed_drop_bit n w) i \<longleftrightarrow> bit (drop_bit n w) i"
    by (auto simp: bit_signed_drop_bit_iff bit_drop_bit_eq)
qed

lemma smear_step:
  fixes v w :: int32
  assumes c: "\<not> bit w 31" and v: "\<And>i. bit v i \<longleftrightarrow> (\<exists>j<m. bit w (i + j))"
  shows "bit (v OR signed_drop_bit m v) i \<longleftrightarrow> (\<exists>j<2 * m. bit w (i + j))"
proof -
  have "\<not> bit w (31 + j)" for j
  proof (cases j)
    case 0
    with c show ?thesis by simp
  next
    case (Suc j')
    then show ?thesis using bit_imp_le_length [of w "31 + j"] by auto
  qed
  then have "\<not> bit v 31" unfolding v by simp
  then have "signed_drop_bit m v = drop_bit m v" by (rule signed_drop_bit_clear)
  then have "bit (v OR signed_drop_bit m v) i \<longleftrightarrow>
      (\<exists>j<m. bit w (i + j)) \<or> (\<exists>j<m. bit w (m + i + j))"
    by (simp add: bit_or_iff bit_drop_bit_eq v)
  also have "\<dots> \<longleftrightarrow> (\<exists>j<2 * m. bit w (i + j))"
  proof
    assume "(\<exists>j<m. bit w (i + j)) \<or> (\<exists>j<m. bit w (m + i + j))"
    then show "\<exists>j<2 * m. bit w (i + j)"
    proof
      assume "\<exists>j<m. bit w (i + j)"
      then obtain j where "j < m" "bit w (i + j)" by blast
      then have "j < 2 * m \<and> bit w (i + j)" by simp
      then show ?thesis ..
    next
      assume "\<exists>j<m. bit w (m + i + j)"
      then obtain j where "j < m" "bit w (m + i + j)" by blast
      then have "m + j < 2 * m \<and> bit w (i + (m + j))" by (simp add: ac_simps)
      then show ?thesis ..
    qed
  next
    assume "\<exists>j<2 * m. bit w (i + j)"
    then obtain j where j: "j < 2 * m" "bit w (i + j)" by blast
    show "(\<exists>j<m. bit w (i + j)) \<or> (\<exists>j<m. bit w (m + i + j))"
    proof (cases "j < m")
      case True
      with j show ?thesis by blast
    next
      case False
      with j have "j - m < m" "bit w (m + i + (j - m))" by (simp_all add: ac_simps)
      then show ?thesis by blast
    qed
  qed
  finally show ?thesis .
qed

lemma smear_bits:
  fixes w :: int32
  assumes c: "\<not> bit w 31"
  defines "v1 \<equiv> w OR signed_drop_bit 1 w"
  defines "v2 \<equiv> v1 OR signed_drop_bit 2 v1"
  defines "v3 \<equiv> v2 OR signed_drop_bit 4 v2"
  defines "v4 \<equiv> v3 OR signed_drop_bit 8 v3"
  defines "v5 \<equiv> v4 OR signed_drop_bit 16 v4"
  shows "bit v5 i \<longleftrightarrow> (\<exists>j<32. bit w (i + j))"
proof -
  have b0: "bit w i \<longleftrightarrow> (\<exists>j<1. bit w (i + j))" for i by simp
  have b1: "bit v1 i \<longleftrightarrow> (\<exists>j<2. bit w (i + j))" for i
    unfolding v1_def using smear_step [OF c b0, of i] by simp
  have b2: "bit v2 i \<longleftrightarrow> (\<exists>j<4. bit w (i + j))" for i
    unfolding v2_def using smear_step [OF c b1, of i] by simp
  have b3: "bit v3 i \<longleftrightarrow> (\<exists>j<8. bit w (i + j))" for i
    unfolding v3_def using smear_step [OF c b2, of i] by simp
  have b4: "bit v4 i \<longleftrightarrow> (\<exists>j<16. bit w (i + j))" for i
    unfolding v4_def using smear_step [OF c b3, of i] by simp
  show ?thesis
    unfolding v5_def using smear_step [OF c b4, of i] by simp
qed

subsection \<open>The length of the binary representation\<close>

lemma bit_length_ex:
  fixes x :: int
  shows "x < 2 ^ m \<Longrightarrow> \<exists>n\<le>m. x < 2 ^ n \<and> (n = 0 \<or> 2 ^ (n - 1) \<le> x)"
proof (induction m)
  case 0
  then have "0 \<le> (0 :: nat) \<and> x < 2 ^ 0 \<and> (0 = (0 :: nat) \<or> 2 ^ (0 - 1) \<le> x)" by simp
  then show ?case by blast
next
  case (Suc m)
  show ?case
  proof (cases "x < 2 ^ m")
    case True
    then obtain n where "n \<le> m" "x < 2 ^ n \<and> (n = 0 \<or> 2 ^ (n - 1) \<le> x)"
      using Suc.IH by blast
    then have "n \<le> Suc m \<and> x < 2 ^ n \<and> (n = 0 \<or> 2 ^ (n - 1) \<le> x)" by simp
    then show ?thesis by blast
  next
    case False
    with Suc.prems
    have "Suc m \<le> Suc m \<and> x < 2 ^ Suc m \<and> (Suc m = 0 \<or> 2 ^ (Suc m - 1) \<le> x)" by simp
    then show ?thesis by blast
  qed
qed

lemma bit_above_clear:
  fixes x :: int
  assumes "0 \<le> x" "x < 2 ^ n" "n \<le> i"
  shows "\<not> bit x i"
proof -
  have "(2 :: int) ^ n \<le> 2 ^ i" using assms(3) by (intro power_increasing) simp_all
  with assms(2) have "x < 2 ^ i" by (rule less_le_trans)
  with assms(1) have "x div 2 ^ i = 0" by (simp add: div_pos_pos_trivial)
  then show ?thesis by (simp add: bit_iff_odd)
qed

lemma bit_top_set:
  fixes x :: int
  assumes "2 ^ n \<le> x" "x < 2 ^ Suc n"
  shows "bit x n"
proof -
  have "x = 2 ^ n * 1 + (x - 2 ^ n)" by simp
  moreover have "0 \<le> x - 2 ^ n" using assms(1) by simp
  moreover have "x - 2 ^ n < 2 ^ n" using assms(2) by simp
  ultimately have "x div 2 ^ n = 1" by (rule int_div_pos_eq)
  then show ?thesis by (simp add: bit_iff_odd)
qed

subsection \<open>The result\<close>

text \<open>
  For \<open>1 \<le> v \<le> 2^31\<close> the smeared value of \<open>v - 1\<close> is \<open>2^n - 1\<close>, with \<open>n\<close> the length
  of the binary representation of \<open>v - 1\<close>, and the result \<open>2^n\<close> is the least power of
  two that is at least \<open>v\<close>.
\<close>

lemma sint_mask_32: "n \<le> 31 \<Longrightarrow> sint (mask n :: int32) = 2 ^ n - 1"
proof -
  assume n: "n \<le> 31"
  have "(2 :: int) ^ n \<le> 2 ^ 31" using n by (intro power_increasing) simp_all
  then have hi: "(2 :: int) ^ n - 1 < 2 ^ 31" by simp
  have "- (2 ^ 31) \<le> (0 :: int)" by simp
  also have "(0 :: int) \<le> 2 ^ n - 1" by simp
  finally have lo: "- (2 ^ 31) \<le> (2 :: int) ^ n - 1" .
  have "(mask n :: int32) = word_of_int (2 ^ n - 1)" by (simp add: mask_eq_exp_minus_1)
  then show ?thesis using sint_word_of_int_32 [OF lo hi] by simp
qed

lemma smear_eq_mask:
  fixes x :: int and w :: int32
  assumes x: "0 \<le> x" "x < 2 ^ 31" and n: "n \<le> 31" "x < 2 ^ n" "n = 0 \<or> 2 ^ (n - 1) \<le> x"
  defines "w \<equiv> word_of_int x"
  defines "v1 \<equiv> w OR signed_drop_bit 1 w"
  defines "v2 \<equiv> v1 OR signed_drop_bit 2 v1"
  defines "v3 \<equiv> v2 OR signed_drop_bit 4 v2"
  defines "v4 \<equiv> v3 OR signed_drop_bit 8 v3"
  shows "v4 OR signed_drop_bit 16 v4 = mask n"
proof (rule bit_word_eqI)
  fix i
  assume "i < LENGTH(32)"
  have bw: "bit w i \<longleftrightarrow> i < 32 \<and> bit x i" for i
    unfolding w_def by (simp add: bit_word_of_int_iff)
  have "\<not> bit x 31" using x by (rule bit_above_clear) simp
  then have c: "\<not> bit w 31" by (simp add: bw)
  have "bit (v4 OR signed_drop_bit 16 v4) i \<longleftrightarrow> (\<exists>j<32. bit w (i + j))"
    unfolding v4_def v3_def v2_def v1_def using c by (rule smear_bits)
  also have "\<dots> \<longleftrightarrow> i < n"
  proof
    assume "\<exists>j<32. bit w (i + j)"
    then obtain j where "bit x (i + j)" unfolding bw by blast
    then have "\<not> n \<le> i + j" using bit_above_clear [OF x(1) n(2), of "i + j"] by blast
    then show "i < n" by simp
  next
    assume i: "i < n"
    then have "n \<noteq> 0" by simp
    with n(3) have lo: "2 ^ (n - 1) \<le> x" by simp
    from \<open>n \<noteq> 0\<close> have "Suc (n - 1) = n" by simp
    with n(2) have "x < 2 ^ Suc (n - 1)" by simp
    with lo have "bit x (n - 1)" by (rule bit_top_set)
    moreover have "n - 1 < 32" using n(1) by simp
    ultimately have "bit w (n - 1)" unfolding bw by simp
    moreover have "i + (n - 1 - i) = n - 1" using i by simp
    ultimately have "n - 1 - i < 32 \<and> bit w (i + (n - 1 - i))" using n(1) by simp
    then show "\<exists>j<32. bit w (i + j)" by blast
  qed
  also have "\<dots> \<longleftrightarrow> bit (mask n :: int32) i"
    using n(1) by (simp add: Word.bit_mask_iff)
  finally show "bit (v4 OR signed_drop_bit 16 v4) i \<longleftrightarrow> bit (mask n :: int32) i" .
qed

lemma nextPowerOfTwo_least:
  fixes v :: int
  assumes v: "1 \<le> v" "v \<le> 2 ^ 31"
  shows "\<exists>k. nextPowerOfTwo (of_int v) = 2 ^ k \<and> v \<le> 2 ^ k \<and> (\<forall>j. v \<le> 2 ^ j \<longrightarrow> k \<le> j)"
proof -
  define x where "x = v - 1"
  have x: "0 \<le> x" "x < 2 ^ 31" using v by (simp_all add: x_def)
  from bit_length_ex [OF x(2)] obtain n
    where n: "n \<le> 31" "x < 2 ^ n" "n = 0 \<or> 2 ^ (n - 1) \<le> x" by blast
  have w: "ToInt32 (of_int v - 1) = word_of_int x"
    unfolding ToInt32_of_int_pred x_def by simp
  have "nextPowerOfTwo (of_int v) = ofInt32 (mask n) + 1"
    unfolding nextPowerOfTwo_def Let_def w smear_eq_mask [OF x n] ..
  also have "\<dots> = 2 ^ n" using sint_mask_32 [OF n(1)] by (simp add: ofInt32_def)
  finally have r: "nextPowerOfTwo (of_int v) = 2 ^ n" .
  have ge: "v \<le> 2 ^ n" using n(2) by (simp add: x_def)
  have least: "n \<le> j" if "v \<le> 2 ^ j" for j
  proof (rule ccontr)
    assume "\<not> n \<le> j"
    then have j: "j \<le> n - 1" "n \<noteq> 0" by simp_all
    then have "(2 :: int) ^ j \<le> 2 ^ (n - 1)" by (intro power_increasing) simp_all
    also from j n(3) have "\<dots> \<le> x" by simp
    finally have "2 ^ j < v" by (simp add: x_def)
    with that show False by simp
  qed
  from r ge least show ?thesis by blast
qed

text \<open>
  C4. For every integer \<open>v\<close> with \<open>1 \<le> v \<le> 10000\<close>, \<open>nextPowerOfTwo(v)\<close> is a power
  of two, it is at least \<open>v\<close>, and no power of two that is at least \<open>v\<close> is smaller.
\<close>

theorem nextPowerOfTwo_spec:
  fixes v :: int
  assumes "1 \<le> v" "v \<le> 10000"
  shows "\<exists>k. nextPowerOfTwo (of_int v) = 2 ^ k \<and> of_int v \<le> nextPowerOfTwo (of_int v) \<and>
           (\<forall>j. of_int v \<le> (2 :: number) ^ j \<longrightarrow> nextPowerOfTwo (of_int v) \<le> 2 ^ j)"
proof -
  have "v \<le> 2 ^ 31" using assms(2) by simp
  with assms(1) obtain k where k: "nextPowerOfTwo (of_int v) = 2 ^ k" "v \<le> 2 ^ k"
    "\<And>j. v \<le> 2 ^ j \<Longrightarrow> k \<le> j"
    using nextPowerOfTwo_least [of v] by blast
  have a: "of_int v \<le> (2 :: number) ^ j \<longleftrightarrow> v \<le> 2 ^ j" for j
  proof -
    have "of_int v \<le> (of_int (2 ^ j) :: number) \<longleftrightarrow> v \<le> 2 ^ j" by (rule of_int_le_iff)
    then show ?thesis by simp
  qed
  have "of_int v \<le> nextPowerOfTwo (of_int v)" unfolding k(1) a by (rule k(2))
  moreover have "nextPowerOfTwo (of_int v) \<le> 2 ^ j" if "of_int v \<le> (2 :: number) ^ j" for j
  proof -
    from that have "k \<le> j" unfolding a by (rule k(3))
    then show ?thesis unfolding k(1) by (intro power_increasing) simp_all
  qed
  ultimately show ?thesis using k(1) by blast
qed

theorem nextPowerOfTwo_spec_witness:
  "(1 :: int) \<le> 5 \<and> (5 :: int) \<le> 10000 \<and> nextPowerOfTwo (of_int 5) = 2 ^ 3 \<and>
   (\<exists>k. nextPowerOfTwo (of_int 5) = 2 ^ k \<and> of_int 5 \<le> nextPowerOfTwo (of_int 5) \<and>
      (\<forall>j. of_int 5 \<le> (2 :: number) ^ j \<longrightarrow> nextPowerOfTwo (of_int 5) \<le> 2 ^ j))"
proof -
  have h: "(1 :: int) \<le> 5" "(5 :: int) \<le> 10000" by simp_all
  have e: "nextPowerOfTwo (of_int 5) = 2 ^ 3"
    by (simp add: nextPowerOfTwo_def ToInt32_def trunc_def ofInt32_def)
  from nextPowerOfTwo_spec [OF h] h e show ?thesis by blast
qed

section \<open>round\<close>

lemma round_js_example: "round_js 10.33333 (Some 2) = 10.33"
  by (simp add: round_js_def pow10_def ToInt32_def trunc_def ofInt32_def)

lemma round_js_default: "round_js num None = round_js num (Some 0)"
  by (simp add: round_js_def)

text \<open>
  C1. The claim: for every number \<open>num\<close> and integer \<open>dec \<ge> 0\<close>, \<open>round(num, dec)\<close> is
  \<open>floor(0.5 + num * 10^dec) / 10^dec\<close>. The code truncates towards zero instead of
  taking the floor, so on negative numbers it differs: \<open>round(-1.25, 0)\<close> is \<open>0\<close> where
  the formula gives \<open>-1\<close>, and \<open>round(-10.33333, 2)\<close> is \<open>-10.32\<close> where the formula
  gives \<open>-10.33\<close>. At \<open>-1.25\<close> every intermediate value is a binary fraction, so the
  evaluation is that of binary64 as well.
\<close>

theorem round_js_negative:
  "round_js (- 1.25) (Some 0) = 0 \<and>
   of_int \<lfloor>0.5 + (- 1.25) * pow10 0\<rfloor> / pow10 0 = (- 1 :: number) \<and>
   round_js (- 10.33333) (Some 2) = - 10.32 \<and>
   of_int \<lfloor>0.5 + (- 10.33333) * pow10 2\<rfloor> / pow10 2 = (- 10.33 :: number)"
  by (simp add: round_js_def pow10_def ToInt32_def trunc_def ofInt32_def)

section \<open>random\<close>

text \<open>The integers that occur below are numbers, and so is \<open>3/4\<close>.\<close>

lemma fl_span: "fl (2000000000 - - 2000000000) = 4000000000"
proof -
  have b: "binade 4000000000 = 31" by (rule binade_normal) simp_all
  have r: "round_even (4000000000 / 2 powi (31 - 52)) = 8388608000000000"
    by (rule round_even_near) simp_all
  from fl_pos [OF _ b r] show ?thesis by simp
qed

lemma fl_scaled: "fl (3 / 4 * 4000000000) = 3000000000"
proof -
  have b: "binade 3000000000 = 31" by (rule binade_normal) simp_all
  have r: "round_even (3000000000 / 2 powi (31 - 52)) = 6291456000000000"
    by (rule round_even_near) simp_all
  from fl_pos [OF _ b r] show ?thesis by simp
qed

lemma fl_shifted: "fl (- 1294967296 + - 2000000000) = - 3294967296"
proof -
  have b: "binade 3294967296 = 31" by (rule binade_normal) simp_all
  have r: "round_even (3294967296 / 2 powi (31 - 52)) = 6910047254740992"
    by (rule round_even_near) simp_all
  from fl_pos [OF _ b r] have "fl 3294967296 = 3294967296" by simp
  then have "fl (- 3294967296) = - 3294967296" by (simp only: fl_minus)
  then show ?thesis by simp
qed

lemma fl_three_quarters: "fl (3 / 4) = 3 / 4"
proof -
  have b: "binade (3 / 4) = - 1" by (rule binade_normal) simp_all
  have r: "round_even (3 / 4 / 2 powi (- 1 - 52)) = 6755399441055744"
    by (rule round_even_near) simp_all
  from fl_pos [OF _ b r] show ?thesis by simp
qed

text \<open>
  C6. The claim: for integers \<open>min < max\<close> and a value \<open>r\<close> of the random source with
  \<open>0 \<le> r < 1\<close>, \<open>random(min, max)\<close> is an integer \<open>n\<close> with \<open>min \<le> n < max\<close>. The code
  truncates with \<open>~~\<close>, which reduces to 32 bits: with the source at \<open>0.75\<close>,
  \<open>random(-2000000000, 2000000000)\<close> is \<open>-3294967296\<close>, below \<open>min\<close>. Every operation
  of this evaluation is exact in binary64.
\<close>

theorem random_js_wraps:
  "(0 :: number) \<le> 0.75 \<and> (0.75 :: number) < 1 \<and> (- 2000000000 :: int) < 2000000000 \<and>
   random_js 0.75 (of_int (- 2000000000)) (of_int 2000000000) = - 3294967296 \<and>
   (- 3294967296 :: number) < of_int (- 2000000000)"
proof -
  have "ofInt32 (ToInt32 3000000000) = - 1294967296"
    by (simp add: ToInt32_def trunc_def ofInt32_def)
  then have "random_js (3 / 4) (- 2000000000) 2000000000 = - 3294967296"
    unfolding random_js_def fl_span fl_scaled by (simp only: fl_shifted)
  then show ?thesis by simp
qed

text \<open>
  Rounding alone can also move the result: with the source at the number \<open>0.7\<close>, the
  product \<open>0.7 * 10\<close> rounds to \<open>7\<close>, so \<open>random(0, 10)\<close> is \<open>7\<close> where the exact product
  has the floor \<open>6\<close>.
\<close>

lemma fl_0_7: "fl 0.7 = 6305039478318694 / 2 ^ 53"
proof -
  have b: "binade 0.7 = - 1" by (rule binade_normal) simp_all
  have r: "round_even (0.7 / 2 powi (- 1 - 52)) = 6305039478318694"
    by (rule round_even_near) simp_all
  from fl_pos [OF _ b r] show ?thesis by simp
qed

lemma fl_10: "fl 10 = 10"
proof -
  have b: "binade 10 = 3" by (rule binade_normal) simp_all
  have r: "round_even (10 / 2 powi (3 - 52)) = 5629499534213120"
    by (rule round_even_near) simp_all
  from fl_pos [OF _ b r] show ?thesis by simp
qed

lemma fl_7_rounds_up: "fl (6305039478318694 / 2 ^ 53 * 10) = 7"
proof -
  have b: "binade (6305039478318694 / 2 ^ 53 * 10) = 2" by (rule binade_normal) simp_all
  have "6305039478318694 / 2 ^ 53 * 10 / 2 powi (2 - 52) =
      (of_int 7881299347898367 + 1 / 2 :: real)"
    by simp
  then have r: "round_even (6305039478318694 / 2 ^ 53 * 10 / 2 powi (2 - 52)) = 7881299347898368"
    by (simp only: round_even_tie) simp
  from fl_pos [OF _ b r] show ?thesis by simp
qed

lemma fl_7: "fl 7 = 7"
proof -
  have b: "binade 7 = 2" by (rule binade_normal) simp_all
  have r: "round_even (7 / 2 powi (2 - 52)) = 7881299347898368"
    by (rule round_even_near) simp_all
  from fl_pos [OF _ b r] show ?thesis by simp
qed

lemma random_js_rounds_up:
  "random_js (fl 0.7) 0 10 = 7 \<and> \<lfloor>fl 0.7 * (10 - 0)\<rfloor> + 0 = 6"
proof -
  have "ofInt32 (ToInt32 7) = 7"
    by (simp add: ToInt32_def trunc_def ofInt32_def)
  moreover have "fl (10 - 0) = 10" using fl_10 by simp
  moreover have "fl (7 + 0) = 7" using fl_7 by simp
  ultimately have "random_js (fl 0.7) 0 10 = 7"
    unfolding random_js_def fl_0_7 by (simp only: fl_7_rounds_up)
  moreover have "\<lfloor>fl 0.7 * (10 - 0)\<rfloor> + 0 = 6"
    unfolding fl_0_7 by simp
  ultimately show ?thesis ..
qed

text \<open>
  And where the numbers are two apart, the final addition can round up to \<open>max\<close>
  itself: with the source at \<open>0.5\<close>, \<open>random(2^53 + 2, 2^53 + 4)\<close> is \<open>2^53 + 4\<close>.
\<close>

lemma fl_2: "fl 2 = 2"
proof -
  have b: "binade 2 = 1" by (rule binade_normal) simp_all
  have r: "round_even (2 / 2 powi (1 - 52)) = 4503599627370496"
    by (rule round_even_near) simp_all
  from fl_pos [OF _ b r] show ?thesis by simp
qed

lemma fl_1: "fl 1 = 1"
proof -
  have b: "binade 1 = 0" by (rule binade_normal) simp_all
  have r: "round_even (1 / 2 powi (0 - 52)) = 4503599627370496"
    by (rule round_even_near) simp_all
  from fl_pos [OF _ b r] show ?thesis by simp
qed

lemma fl_odd_above_2_53: "fl 9007199254740995 = 9007199254740996"
proof -
  have b: "binade 9007199254740995 = 53" by (rule binade_normal) simp_all
  have "9007199254740995 / 2 powi (53 - 52) = (of_int 4503599627370497 + 1 / 2 :: real)"
    by simp
  then have r: "round_even (9007199254740995 / 2 powi (53 - 52)) = 4503599627370498"
    by (simp only: round_even_tie) simp
  from fl_pos [OF _ b r] show ?thesis by simp
qed

lemma random_js_reaches_max:
  "random_js (1 / 2) 9007199254740994 9007199254740996 = 9007199254740996"
proof -
  have "fl (9007199254740996 - 9007199254740994) = 2" using fl_2 by simp
  moreover have "fl (1 / 2 * 2) = 1" using fl_1 by simp
  moreover have "ofInt32 (ToInt32 1) = 1"
    by (simp add: ToInt32_def trunc_def ofInt32_def)
  moreover have "fl (1 + 9007199254740994) = 9007199254740996"
    using fl_odd_above_2_53 by simp
  ultimately show ?thesis unfolding random_js_def by (simp only:)
qed

end
